theory Spec2Isabelle
  imports Main
begin

section \<open>serve.mjs: a development static-file server\<close>

text \<open>
  A shallow embedding of \<^verbatim>\<open>serve.mjs\<close>: path resolution for static files, the
  router and the API stub, the throttle used by the file watcher, the registry of
  server-sent-event connections, and the command-line parser.

  Strings are lists of 8-bit characters, so argument tokens and paths are taken to be
  ASCII. The functions of \<^verbatim>\<open>node:path\<close> are modelled in their POSIX form.
\<close>

subsection \<open>String helpers\<close>

text \<open>\<^verbatim>\<open>s.startsWith(p)\<close>.\<close>

fun startsWith :: "string \<Rightarrow> string \<Rightarrow> bool" where
  "startsWith s [] = True"
| "startsWith [] (p # ps) = False"
| "startsWith (c # cs) (p # ps) = (c = p \<and> startsWith cs ps)"

text \<open>\<^verbatim>\<open>s.split(c)\<close> for a one-character separator: never the empty list.\<close>

fun split_on :: "char \<Rightarrow> string \<Rightarrow> string list" where
  "split_on c [] = [[]]"
| "split_on c (x # xs) =
     (if x = c then [] # split_on c xs
      else (case split_on c xs of
              [] \<Rightarrow> [[x]]
            | w # ws \<Rightarrow> (x # w) # ws))"

text \<open>\<^verbatim>\<open>segs.join("/")\<close>.\<close>

fun join_slash :: "string list \<Rightarrow> string" where
  "join_slash [] = []"
| "join_slash [s] = s"
| "join_slash (s # t # ss) = s @ CHR ''/'' # join_slash (t # ss)"

subsection \<open>node:path (POSIX)\<close>

text \<open>
  \<^verbatim>\<open>normalizeString(path, allowAboveRoot, "/", isPosixPathSeparator)\<close> of Node's
  \<^verbatim>\<open>lib/path.js\<close> walks the path one segment at a time: an empty segment and
  \<^verbatim>\<open>.\<close> are dropped; \<^verbatim>\<open>..\<close> removes the last kept segment, unless nothing is
  kept or the last kept segment is itself \<^verbatim>\<open>..\<close>, in which case it is appended when
  \<^verbatim>\<open>allowAboveRoot\<close> holds and dropped otherwise; any other segment is appended.
  The kept segments are joined with \<^verbatim>\<open>/\<close>.
\<close>

definition normalize_step :: "bool \<Rightarrow> string list \<Rightarrow> string \<Rightarrow> string list" where
  "normalize_step allowAboveRoot res seg =
     (if seg = [] \<or> seg = ''.'' then res
      else if seg = ''..'' then
        (if res = [] \<or> last res = ''..''
         then (if allowAboveRoot then res @ [''..''] else res)
         else butlast res)
      else res @ [seg])"

definition normalize_segments :: "bool \<Rightarrow> string \<Rightarrow> string list" where
  "normalize_segments allowAboveRoot p =
     foldl (normalize_step allowAboveRoot) [] (split_on CHR ''/'' p)"

definition normalizeString :: "string \<Rightarrow> bool \<Rightarrow> string" where
  "normalizeString p allowAboveRoot = join_slash (normalize_segments allowAboveRoot p)"

definition isAbsolute :: "string \<Rightarrow> bool" where
  "isAbsolute p = (p \<noteq> [] \<and> hd p = CHR ''/'')"

text \<open>\<^verbatim>\<open>path.posix.normalize\<close>.\<close>

definition path_normalize :: "string \<Rightarrow> string" where
  "path_normalize p =
     (if p = [] then ''.''
      else
        (let trailingSeparator = (last p = CHR ''/'');
             q = normalizeString p (\<not> isAbsolute p)
         in if q = [] then
              (if isAbsolute p then ''/''
               else if trailingSeparator then ''./'' else ''.'')
            else
              (let q' = (if trailingSeparator then q @ ''/'' else q)
               in if isAbsolute p then CHR ''/'' # q' else q')))"

text \<open>\<^verbatim>\<open>path.posix.join(a, b)\<close>: empty arguments are skipped.\<close>

definition path_join :: "string \<Rightarrow> string \<Rightarrow> string" where
  "path_join a b =
     (if a = [] \<and> b = [] then ''.''
      else if a = [] then path_normalize b
      else if b = [] then path_normalize a
      else path_normalize (a @ CHR ''/'' # b))"

subsection \<open>Path resolution\<close>

text \<open>
  \<^verbatim>\<open>.replace(/^(\.\.[/\\])+/, "")\<close>: removes the longest leading run of
  \<^verbatim>\<open>../\<close> and \<^verbatim>\<open>..\\<close>.
\<close>

fun strip_parent_prefix :: "string \<Rightarrow> string" where
  "strip_parent_prefix (a # b # c # cs) =
     (if a = CHR ''.'' \<and> b = CHR ''.'' \<and> (c = CHR ''/'' \<or> c = CHR 0x5C)
      then strip_parent_prefix cs
      else a # b # c # cs)"
| "strip_parent_prefix s = s"

definition sanitisePath :: "string \<Rightarrow> string" where
  "sanitisePath pathname = strip_parent_prefix (path_normalize pathname)"

text \<open>
  \<^verbatim>\<open>getFilepath(pathname, prefix)\<close>; \<^verbatim>\<open>None\<close> is JavaScript's \<^verbatim>\<open>null\<close>. An
  absent prefix and the empty prefix are both falsy.
\<close>

definition getFilepath :: "string \<Rightarrow> string option \<Rightarrow> string option" where
  "getFilepath pathname prefix =
     (case prefix of
        None \<Rightarrow> Some (sanitisePath pathname)
      | Some pre \<Rightarrow>
          if pre = [] then Some (sanitisePath pathname)
          else if startsWith pathname pre
          then Some (sanitisePath (drop (length pre) pathname))
          else None)"

text \<open>
  The first lines of the handler returned by \<^verbatim>\<open>handleStatic\<close>: the path that is
  passed to \<^verbatim>\<open>fs.stat\<close>, or \<^verbatim>\<open>None\<close> when the handler returns before touching
  the disk (\<^verbatim>\<open>if (!filepath) return\<close>).
\<close>

definition handleStatic_filepath :: "string \<Rightarrow> string option \<Rightarrow> string \<Rightarrow> string option" where
  "handleStatic_filepath pathname prefix directory =
     (case getFilepath pathname prefix of
        None \<Rightarrow> None
      | Some filepath \<Rightarrow>
          if filepath = [] then None
          else Some (path_join directory filepath))"

text \<open>
  A path lies within a root when both are absolute or both relative, the segments of
  the normalised root are a prefix of the segments of the path, and the remaining
  segments never step up.
\<close>

definition path_segments :: "string \<Rightarrow> string list" where
  "path_segments p = filter (\<lambda>s. s \<noteq> [] \<and> s \<noteq> ''.'') (split_on CHR ''/'' p)"

definition within_root :: "string \<Rightarrow> string \<Rightarrow> bool" where
  "within_root root p =
     (let r = path_segments (path_normalize root); q = path_segments p
      in isAbsolute p = isAbsolute (path_normalize root)
         \<and> take (length r) q = r
         \<and> ''..'' \<notin> set (drop (length r) q))"

text \<open>
  The segments that \<^verbatim>\<open>normalizeString\<close> keeps: never empty, never \<^verbatim>\<open>.\<close>, free
  of separators, and \<^verbatim>\<open>..\<close> only when stepping above the root is allowed.
\<close>

definition kept_segment :: "bool \<Rightarrow> string \<Rightarrow> bool" where
  "kept_segment allowAboveRoot s =
     (s \<noteq> [] \<and> s \<noteq> ''.'' \<and> CHR ''/'' \<notin> set s \<and> (allowAboveRoot \<or> s \<noteq> ''..''))"

subsection \<open>Router and API stub\<close>

text \<open>What a handler did with the response.\<close>

datatype reply =
    NotFound string
  | NoReply

definition notFound :: "string \<Rightarrow> reply" where
  "notFound msg = NotFound msg"

definition is_digit :: "char \<Rightarrow> bool" where
  "is_digit c = (c \<in> set ''0123456789'')"

text \<open>The dot of a regular expression without the \<^verbatim>\<open>s\<close> flag skips line terminators.\<close>

definition is_line_terminator :: "char \<Rightarrow> bool" where
  "is_line_terminator c = (c = CHR 0x0A \<or> c = CHR 0x0D)"

text \<open>
  \<^verbatim>\<open>APIPathRegex.exec(pathname)\<close> for \<^verbatim>\<open>/^\/api\/(\d+)(.*)$/\<close>: the two groups
  of the match. The first group is greedy, so it is the whole run of digits; the second
  is the rest, which has to be free of line terminators for \<^verbatim>\<open>$\<close> to match.
\<close>

definition APIPathRegex_exec :: "string \<Rightarrow> (string \<times> string) option" where
  "APIPathRegex_exec s =
     (if startsWith s ''/api/'' then
        (let t = drop 5 s; version = takeWhile is_digit t; rest = dropWhile is_digit t
         in if version \<noteq> [] \<and> \<not> list_ex is_line_terminator rest
            then Some (version, rest) else None)
      else None)"

definition handleAPI :: "string \<Rightarrow> reply" where
  "handleAPI pathname =
     (case APIPathRegex_exec pathname of
        None \<Rightarrow> notFound ''Invalid API endpoint''
      | Some (version, p) \<Rightarrow>
          if \<not> startsWith p ''/'' then notFound ''Invalid API endpoint''
          else NoReply)"

text \<open>
  The branch that \<^verbatim>\<open>route\<close> takes for the pathname of the request URL.
\<close>

datatype route_target =
    ToSSERegister
  | ToAPI
  | ToStatic
  | Unmatched

definition route :: "string \<Rightarrow> route_target" where
  "route pathname =
     (if pathname = ''/reload'' then ToSSERegister
      else if startsWith pathname ''/api'' then ToAPI
      else if startsWith pathname ''/'' then ToStatic
      else Unmatched)"

text \<open>
  The path on disk that a request reaches through \<^verbatim>\<open>route\<close>: only the static
  branch reads files, with no prefix and \<^verbatim>\<open>opts.dirpath\<close> as directory.
\<close>

definition route_filepath :: "string \<Rightarrow> string \<Rightarrow> string option" where
  "route_filepath dirpath pathname =
     (case route pathname of
        ToStatic \<Rightarrow> handleStatic_filepath pathname None dirpath
      | _ \<Rightarrow> None)"

text \<open>The reply of \<^verbatim>\<open>route\<close> on the API branch.\<close>

definition route_api_reply :: "string \<Rightarrow> reply option" where
  "route_api_reply pathname =
     (case route pathname of
        ToAPI \<Rightarrow> Some (handleAPI pathname)
      | _ \<Rightarrow> None)"

subsection \<open>Throttle\<close>

text \<open>
  The closure returned by \<^verbatim>\<open>throttle(ms, cb)\<close> owns two flags. The model adds the
  pending timer of \<^verbatim>\<open>setTimeout\<close> (the time at which it is due) and the log of the
  times at which \<^verbatim>\<open>cb\<close> was called. Time is a count of milliseconds.
\<close>

record throttle_state =
  is_timed_out :: bool
  is_timeout_active :: bool
  timer :: "nat option"
  cb_calls :: "nat list"

definition throttle_init :: throttle_state where
  "throttle_init =
     \<lparr>is_timed_out = False, is_timeout_active = False, timer = None, cb_calls = []\<rparr>"

text \<open>The timer callback: \<^verbatim>\<open>() => ((is_timed_out = false), (is_timeout_active = false))\<close>.\<close>

definition timer_fired :: "throttle_state \<Rightarrow> throttle_state" where
  "timer_fired st = st\<lparr>is_timed_out := False, is_timeout_active := False, timer := None\<rparr>"

text \<open>The event loop runs a timer that is due before it delivers a later event.\<close>

definition run_timers :: "nat \<Rightarrow> throttle_state \<Rightarrow> throttle_state" where
  "run_timers now st =
     (case timer st of
        None \<Rightarrow> st
      | Some due \<Rightarrow> if due \<le> now then timer_fired st else st)"

text \<open>
  \<^verbatim>\<open>throttle(ms, cb)\<close>: one call, at time \<^verbatim>\<open>now\<close>, of the function it returns.
\<close>

definition throttle :: "nat \<Rightarrow> nat \<Rightarrow> throttle_state \<Rightarrow> throttle_state" where
  "throttle ms now st =
     (if \<not> is_timed_out st then
        (let st1 = st\<lparr>is_timed_out := True, cb_calls := cb_calls st @ [now]\<rparr>
         in if \<not> is_timeout_active st1
            then st1\<lparr>is_timeout_active := True, timer := Some (now + ms)\<rparr>
            else st1)
      else st)"

text \<open>
  \<^verbatim>\<open>watch\<close>: the function that \<^verbatim>\<open>throttle(100, cb)\<close> returns is called once for
  each event of the watcher, here given by the times of the events.
\<close>

definition watch_event :: "throttle_state \<Rightarrow> nat \<Rightarrow> throttle_state" where
  "watch_event st now = throttle 100 now (run_timers now st)"

definition watch :: "nat list \<Rightarrow> throttle_state" where
  "watch events = foldl watch_event throttle_init events"

subsection \<open>Server-sent events\<close>

text \<open>
  A \<^verbatim>\<open>ServerResponse\<close>, as far as the reload channel uses it. Responses are objects
  shared between the registry and the request handlers, so they live in a store and are
  named by their address.
\<close>

record response =
  statusCode :: "nat option"
  headers :: "(string \<times> string) list"
  written :: "string list"
  ended :: bool
  write_after_end :: bool

definition new_response :: response where
  "new_response =
     \<lparr>statusCode = None, headers = [], written = [], ended = False,
      write_after_end = False\<rparr>"

type_synonym res_ref = nat

record server_state =
  sse_connections :: "(string \<times> res_ref) list"
  responses :: "res_ref \<Rightarrow> response"

text \<open>\<^verbatim>\<open>run\<close> starts with \<^verbatim>\<open>sse_connections = new Map()\<close>.\<close>

definition run_init :: server_state where
  "run_init = \<lparr>sse_connections = [], responses = (\<lambda>_. new_response)\<rparr>"

text \<open>
  A JavaScript \<^verbatim>\<open>Map\<close> keeps its entries in insertion order; \<^verbatim>\<open>set\<close> on a key
  that is present replaces the value in place.
\<close>

fun map_set :: "'k \<Rightarrow> 'v \<Rightarrow> ('k \<times> 'v) list \<Rightarrow> ('k \<times> 'v) list" where
  "map_set k v [] = [(k, v)]"
| "map_set k v ((k', v') # m) =
     (if k' = k then (k, v) # m else (k', v') # map_set k v m)"

definition map_delete :: "'k \<Rightarrow> ('k \<times> 'v) list \<Rightarrow> ('k \<times> 'v) list" where
  "map_delete k m = filter (\<lambda>e. fst e \<noteq> k) m"

definition res_writeHead :: "nat \<Rightarrow> (string \<times> string) list \<Rightarrow> response \<Rightarrow> response" where
  "res_writeHead code hs r = r\<lparr>statusCode := Some code, headers := hs\<rparr>"

text \<open>Writing to a response that has ended is an error (\<^verbatim>\<open>ERR_STREAM_WRITE_AFTER_END\<close>).\<close>

definition res_write :: "string \<Rightarrow> response \<Rightarrow> response" where
  "res_write chunk r =
     (if ended r then r\<lparr>write_after_end := True\<rparr>
      else r\<lparr>written := written r @ [chunk]\<rparr>)"

definition res_end :: "string \<Rightarrow> response \<Rightarrow> response" where
  "res_end chunk r =
     (if ended r then r else r\<lparr>written := written r @ [chunk], ended := True\<rparr>)"

definition update_response ::
  "res_ref \<Rightarrow> (response \<Rightarrow> response) \<Rightarrow> server_state \<Rightarrow> server_state" where
  "update_response res f s = s\<lparr>responses := (responses s)(res := f (responses s res))\<rparr>"

text \<open>\<^verbatim>\<open>req.socket.remoteAddress ?? "unknown"\<close>.\<close>

definition remoteAddress_of :: "string option \<Rightarrow> string" where
  "remoteAddress_of a = (case a of None \<Rightarrow> ''unknown'' | Some x \<Rightarrow> x)"

text \<open>\<^verbatim>\<open>SSERegister(req, res)\<close>, for the remote address of the request's socket.\<close>

definition SSERegister :: "string option \<Rightarrow> res_ref \<Rightarrow> server_state \<Rightarrow> server_state" where
  "SSERegister socket_remoteAddress res s =
     (let remoteAddress = remoteAddress_of socket_remoteAddress;
          s1 = s\<lparr>sse_connections := map_set remoteAddress res (sse_connections s)\<rparr>
      in update_response res
           (res_writeHead 200
              [(''Content-Type'', ''text/event-stream''),
               (''Cache-Control'', ''no-cache''),
               (''Connection'', ''keep-alive''),
               (''Access-Control-Allow-Origin'', ''*'')]) s1)"

text \<open>
  The listener that \<^verbatim>\<open>SSERegister\<close> installs for the \<^verbatim>\<open>close\<close> event of the
  request; it closes over \<^verbatim>\<open>remoteAddress\<close> and \<^verbatim>\<open>res\<close>.
\<close>

definition SSEClose :: "string option \<Rightarrow> res_ref \<Rightarrow> server_state \<Rightarrow> server_state" where
  "SSEClose socket_remoteAddress res s =
     (let remoteAddress = remoteAddress_of socket_remoteAddress;
          s1 = s\<lparr>sse_connections := map_delete remoteAddress (sse_connections s)\<rparr>
      in update_response res (res_end ''closed'') s1)"

text \<open>\<^verbatim>\<open>SSESendReload\<close>: \<^verbatim>\<open>forEach\<close> visits the entries in insertion order.\<close>

definition reload_msg :: string where
  "reload_msg = ''data: reload'' @ [CHR 0x0A, CHR 0x0A]"

definition SSESendReload :: "server_state \<Rightarrow> server_state" where
  "SSESendReload s =
     foldl (\<lambda>st (client, res). update_response res (res_write reload_msg) st)
       s (sse_connections s)"

text \<open>The clients that hold an entry of the registry.\<close>

definition registered :: "server_state \<Rightarrow> res_ref set" where
  "registered s = snd ` set (sse_connections s)"

subsection \<open>JavaScript values\<close>

text \<open>
  A finite number is kept exact, as an integer or as a decimal fraction
  \<^verbatim>\<open>Frac m n\<close> \<open>= m / 10\<^sup>n\<close> in lowest form (\<open>n > 0\<close>, \<open>m\<close> no multiple of ten);
  rounding to binary64 is not modelled.
\<close>

datatype jsnum =
    NaN
  | PosInfinity
  | NegInfinity
  | IntNum int
  | Frac int nat

datatype jsval =
    VUndefined
  | VNull
  | VBool bool
  | VNum jsnum
  | VStr string

text \<open>The values for which \<^verbatim>\<open>if (value)\<close> takes the branch.\<close>

fun truthy :: "jsval \<Rightarrow> bool" where
  "truthy VUndefined = False"
| "truthy VNull = False"
| "truthy (VBool b) = b"
| "truthy (VNum NaN) = False"
| "truthy (VNum (IntNum i)) = (i \<noteq> 0)"
| "truthy (VNum n) = True"
| "truthy (VStr s) = (s \<noteq> [])"

text \<open>\<^verbatim>\<open>Number.isInteger(v)\<close>.\<close>

fun Number_isInteger :: "jsval \<Rightarrow> bool" where
  "Number_isInteger (VNum (IntNum i)) = True"
| "Number_isInteger v = False"

text \<open>\<^verbatim>\<open>s.toLowerCase()\<close> on ASCII.\<close>

definition lower_char :: "char \<Rightarrow> char" where
  "lower_char c =
     (case map_of (zip ''ABCDEFGHIJKLMNOPQRSTUVWXYZ'' ''abcdefghijklmnopqrstuvwxyz'') c of
        None \<Rightarrow> c
      | Some l \<Rightarrow> l)"

definition toLowerCase :: "string \<Rightarrow> string" where
  "toLowerCase s = map lower_char s"

subsection \<open>Number(string)\<close>

text \<open>
  \<^verbatim>\<open>Number(s)\<close> follows the grammar of \<^verbatim>\<open>StringNumericLiteral\<close>: white space is
  trimmed, the empty string is \<open>0\<close>, then come the unsigned literals with a radix prefix
  and the signed decimal literals; anything else is \<^verbatim>\<open>NaN\<close>.
\<close>

definition is_space :: "char \<Rightarrow> bool" where
  "is_space c = (c \<in> set [CHR 0x09, CHR 0x0A, CHR 0x0B, CHR 0x0C, CHR 0x0D, CHR 0x20])"

definition trim :: "string \<Rightarrow> string" where
  "trim s = rev (dropWhile is_space (rev (dropWhile is_space s)))"

definition digit_of :: "char \<Rightarrow> nat option" where
  "digit_of c =
     map_of
       [(CHR ''0'', 0), (CHR ''1'', 1), (CHR ''2'', 2), (CHR ''3'', 3), (CHR ''4'', 4),
        (CHR ''5'', 5), (CHR ''6'', 6), (CHR ''7'', 7), (CHR ''8'', 8), (CHR ''9'', 9),
        (CHR ''a'', 10), (CHR ''b'', 11), (CHR ''c'', 12), (CHR ''d'', 13),
        (CHR ''e'', 14), (CHR ''f'', 15),
        (CHR ''A'', 10), (CHR ''B'', 11), (CHR ''C'', 12), (CHR ''D'', 13),
        (CHR ''E'', 14), (CHR ''F'', 15)] c"

fun radix_value :: "nat \<Rightarrow> string \<Rightarrow> nat \<Rightarrow> nat option" where
  "radix_value b [] acc = Some acc"
| "radix_value b (c # cs) acc =
     (case digit_of c of
        None \<Rightarrow> None
      | Some d \<Rightarrow> if d < b then radix_value b cs (acc * b + d) else None)"

definition radix_literal :: "nat \<Rightarrow> string \<Rightarrow> jsnum" where
  "radix_literal b ds =
     (if ds = [] then NaN
      else (case radix_value b ds 0 of None \<Rightarrow> NaN | Some n \<Rightarrow> IntNum (int n)))"

text \<open>\<open>m / 10\<^sup>n\<close> in lowest form.\<close>

fun mk_dec :: "int \<Rightarrow> nat \<Rightarrow> jsnum" where
  "mk_dec m 0 = IntNum m"
| "mk_dec m (Suc n) = (if m mod 10 = 0 then mk_dec (m div 10) n else Frac m (Suc n))"

definition dec_value :: "int \<Rightarrow> int \<Rightarrow> jsnum" where
  "dec_value m e = (if 0 \<le> e then IntNum (m * 10 ^ nat e) else mk_dec m (nat (- e)))"

definition digits_value :: "string \<Rightarrow> int" where
  "digits_value ds = (case radix_value 10 ds 0 of None \<Rightarrow> 0 | Some n \<Rightarrow> int n)"

text \<open>
  \<^verbatim>\<open>ExponentPart\<close>: nothing, or \<^verbatim>\<open>e\<close> or \<^verbatim>\<open>E\<close>, an optional sign and at least one
  digit, up to the end of the literal.
\<close>

definition exponent_part :: "string \<Rightarrow> int option" where
  "exponent_part s =
     (case s of
        [] \<Rightarrow> Some 0
      | c # r \<Rightarrow>
          if c = CHR ''e'' \<or> c = CHR ''E'' then
            (let neg = startsWith r ''-'';
                 ds = (if startsWith r ''-'' \<or> startsWith r ''+'' then drop 1 r else r)
             in if ds \<noteq> [] \<and> list_all is_digit ds
                then Some (if neg then - digits_value ds else digits_value ds)
                else None)
          else None)"

text \<open>\<^verbatim>\<open>StrUnsignedDecimalLiteral\<close>.\<close>

definition unsigned_decimal :: "string \<Rightarrow> jsnum" where
  "unsigned_decimal s =
     (if s = ''Infinity'' then PosInfinity
      else
        (let ip = takeWhile is_digit s;
             r1 = dropWhile is_digit s;
             dot = startsWith r1 ''.'';
             fp = (if dot then takeWhile is_digit (drop 1 r1) else []);
             r2 = (if dot then dropWhile is_digit (drop 1 r1) else r1)
         in if ip = [] \<and> fp = [] then NaN
            else (case exponent_part r2 of
                    None \<Rightarrow> NaN
                  | Some e \<Rightarrow> dec_value (digits_value (ip @ fp)) (e - int (length fp)))))"

fun negate :: "jsnum \<Rightarrow> jsnum" where
  "negate NaN = NaN"
| "negate PosInfinity = NegInfinity"
| "negate NegInfinity = PosInfinity"
| "negate (IntNum i) = IntNum (- i)"
| "negate (Frac m n) = Frac (- m) n"

definition StringToNumber :: "string \<Rightarrow> jsnum" where
  "StringToNumber s =
     (let t = trim s
      in if t = [] then IntNum 0
         else if startsWith t ''0x'' \<or> startsWith t ''0X'' then radix_literal 16 (drop 2 t)
         else if startsWith t ''0o'' \<or> startsWith t ''0O'' then radix_literal 8 (drop 2 t)
         else if startsWith t ''0b'' \<or> startsWith t ''0B'' then radix_literal 2 (drop 2 t)
         else if startsWith t ''-'' then negate (unsigned_decimal (drop 1 t))
         else if startsWith t ''+'' then unsigned_decimal (drop 1 t)
         else unsigned_decimal t)"

text \<open>\<^verbatim>\<open>Number(arg)\<close>, where \<^verbatim>\<open>None\<close> is \<^verbatim>\<open>undefined\<close>.\<close>

definition js_Number :: "string option \<Rightarrow> jsnum" where
  "js_Number arg = (case arg of None \<Rightarrow> NaN | Some s \<Rightarrow> StringToNumber s)"

text \<open>\<^verbatim>\<open>String(arg)\<close>, as a template literal and \<^verbatim>\<open>RegExp.test\<close> apply it.\<close>

definition js_String :: "string option \<Rightarrow> string" where
  "js_String arg = (case arg of None \<Rightarrow> ''undefined'' | Some s \<Rightarrow> s)"

subsection \<open>Command-line parameters\<close>

datatype param_type = TString | TNumber | TBoolean

text \<open>
  A \<^verbatim>\<open>ParamDefinition\<close>. An optional property that is absent (\<^verbatim>\<open>"aliases" in def\<close>
  is false) is \<^verbatim>\<open>None\<close>.
\<close>

record param_def =
  aliases :: "string list option"
  position :: "nat option"
  ptype :: param_type
  default_value :: jsval
  validate :: "(jsval \<Rightarrow> bool) option"
  description :: string

definition params_definition :: "(string \<times> param_def) list" where
  "params_definition =
     [(''port'',
       \<lparr>aliases = Some [''port'', ''p''], position = None, ptype = TNumber,
        default_value = VNum (IntNum 8080), validate = Some Number_isInteger,
        description = ''Port number to listen at''\<rparr>),
      (''verbose'',
       \<lparr>aliases = Some [''verbose'', ''v''], position = None, ptype = TBoolean,
        default_value = VUndefined, validate = None,
        description = ''Print debug messages''\<rparr>),
      (''watch'',
       \<lparr>aliases = Some [''watch'', ''w''], position = None, ptype = TBoolean,
        default_value = VUndefined, validate = None,
        description = ''Reload page on source file change''\<rparr>),
      (''dirpath'',
       \<lparr>aliases = None, position = Some 0, ptype = TString,
        default_value = VStr ''.'', validate = None,
        description = ''Path to the directory to serve''\<rparr>)]"

text \<open>The parsed parameters: an object, its keys in the order of the definitions.\<close>

type_synonym params = "(string \<times> jsval) list"

subsection \<open>Parsing arguments\<close>

text \<open>
  \<^verbatim>\<open>/tr?u?e?|ye?s?|1/i.test(arg)\<close>: the optional parts may all be empty, so the
  pattern matches wherever a \<^verbatim>\<open>t\<close>, a \<^verbatim>\<open>y\<close> (of either case) or a \<^verbatim>\<open>1\<close> stands.
\<close>

definition truthy_word_test :: "string \<Rightarrow> bool" where
  "truthy_word_test s = list_ex (\<lambda>c. c \<in> set ''tTyY1'') s"

definition parseArgValue :: "param_def \<Rightarrow> string option \<Rightarrow> jsval" where
  "parseArgValue def arg =
     (case ptype def of
        TString \<Rightarrow> (case arg of None \<Rightarrow> VUndefined | Some s \<Rightarrow> VStr s)
      | TNumber \<Rightarrow> VNum (js_Number arg)
      | TBoolean \<Rightarrow> VBool (truthy_word_test (js_String arg)))"

text \<open>
  \<^verbatim>\<open>/--?he?l?p?/.test(arg)\<close>: the pattern is not anchored, and everything after
  the \<^verbatim>\<open>h\<close> is optional, so it matches wherever \<^verbatim>\<open>-h\<close> or \<^verbatim>\<open>--h\<close> stands.
\<close>

definition help_match_here :: "string \<Rightarrow> bool" where
  "help_match_here s = (startsWith s ''-h'' \<or> startsWith s ''--h'')"

fun help_test :: "string \<Rightarrow> bool" where
  "help_test [] = False"
| "help_test (c # cs) = (help_match_here (c # cs) \<or> help_test cs)"

text \<open>
  What the process wrote to the error stream: the line with the error, and the help
  message that \<^verbatim>\<open>buildHelpMessage\<close> renders from the definitions (the same text on
  every call). Colours are left out.
\<close>

datatype stderr_chunk =
    ErrorLine string
  | HelpMessage

datatype outcome =
    Exit nat "stderr_chunk list"
  | Returned params

text \<open>\<^verbatim>\<open>printHelp(err)\<close> never returns: it ends the process.\<close>

definition printHelp :: "string option \<Rightarrow> nat \<times> stderr_chunk list" where
  "printHelp err =
     (case err of
        None \<Rightarrow> (0, [HelpMessage])
      | Some e \<Rightarrow> if e = [] then (0, [HelpMessage]) else (1, [ErrorLine e, HelpMessage]))"

definition quoted :: "string \<Rightarrow> string" where
  "quoted s = CHR 0x27 # s @ [CHR 0x27]"

text \<open>\<^verbatim>\<open>xs[i]\<close>, which is \<^verbatim>\<open>undefined\<close> out of range.\<close>

definition at_index :: "'a list \<Rightarrow> nat \<Rightarrow> 'a option" where
  "at_index xs i = (if i < length xs then Some (xs ! i) else None)"

text \<open>
  The loop of \<^verbatim>\<open>parseArgs\<close> looks at \<^verbatim>\<open>argv[i]\<close>; here \<^verbatim>\<open>tok\<close> is that token,
  \<^verbatim>\<open>rest\<close> the tokens after it, and \<^verbatim>\<open>k\<close> counts how often the inner loop has
  run \<^verbatim>\<open>++i\<close>. So \<^verbatim>\<open>argv[i]\<close> is:
\<close>

definition argv_i :: "string \<Rightarrow> string list \<Rightarrow> nat \<Rightarrow> string option" where
  "argv_i tok rest k = (if k = 0 then Some tok else at_index rest (k - 1))"

datatype inner_result =
    Exited nat "stderr_chunk list"
  | Finished nat nat jsval params

text \<open>
  The inner loop \<^verbatim>\<open>for (const def_key of def_keys)\<close>, from the definitions that are
  left. It ends with \<^verbatim>\<open>printHelp\<close>, with \<^verbatim>\<open>break\<close> or at the end of the keys; in
  the last two cases it hands back \<^verbatim>\<open>i\<close> (as \<^verbatim>\<open>k\<close>), \<^verbatim>\<open>current_position\<close>,
  \<^verbatim>\<open>value\<close> and \<^verbatim>\<open>res\<close>.
\<close>

fun match_defs ::
  "(string \<times> param_def) list \<Rightarrow> string \<Rightarrow> string \<Rightarrow> string list \<Rightarrow>
   nat \<Rightarrow> nat \<Rightarrow> jsval \<Rightarrow> params \<Rightarrow> inner_result" where
  "match_defs [] arg tok rest k current_position value res =
     Finished k current_position value res"
| "match_defs ((def_key, def) # defs) arg tok rest k current_position value res =
     (let (k', current_position', value') =
        (if startsWith arg ''-'' then
           (case aliases def of
              None \<Rightarrow> (k, current_position, value)
            | Some als \<Rightarrow>
                if drop 1 arg \<in> set als then
                  (if ptype def = TBoolean then (k, current_position, VBool True)
                   else (Suc k, current_position, parseArgValue def (at_index rest k)))
                else (k, current_position, value))
         else
           (case position def of
              None \<Rightarrow> (k, current_position, value)
            | Some p \<Rightarrow>
                if p = current_position
                then (k, Suc current_position, parseArgValue def (Some arg))
                else (k, current_position, value)))
      in if truthy value' then
           (if (case validate def of None \<Rightarrow> False | Some v \<Rightarrow> \<not> v value') then
              (case printHelp
                      (Some (''Invalid value for argument '' @ quoted def_key @ '': ''
                             @ quoted (js_String (argv_i tok rest k')))) of
                 (code, out) \<Rightarrow> Exited code out)
            else Finished k' current_position' value' (map_set def_key value' res))
         else match_defs defs arg tok rest k' current_position' value' res)"

text \<open>
  The outer loop \<^verbatim>\<open>for (let i = 0; i < argv.length; i += 1)\<close>, from the tokens
  that are left.
\<close>

fun parse_loop ::
  "(string \<times> param_def) list \<Rightarrow> string list \<Rightarrow> nat \<Rightarrow> params \<Rightarrow> outcome" where
  "parse_loop defs [] current_position res = Returned res"
| "parse_loop defs (tok # rest) current_position res =
     (let arg = toLowerCase tok
      in if help_test arg then
           (case printHelp None of (code, out) \<Rightarrow> Exit code out)
         else
           (case match_defs defs arg tok rest 0 current_position VNull res of
              Exited code out \<Rightarrow> Exit code out
            | Finished k current_position' value res' \<Rightarrow>
                if \<not> truthy value then
                  (case printHelp
                          (Some (''Unknown argument: ''
                                 @ quoted (js_String (argv_i tok rest k)))) of
                     (code, out) \<Rightarrow> Exit code out)
                else parse_loop defs (drop k rest) current_position' res'))"

text \<open>\<^verbatim>\<open>parseArgs(argv)\<close>: every parameter starts at its default value.\<close>

definition default_params :: "(string \<times> param_def) list \<Rightarrow> params" where
  "default_params defs = map (\<lambda>(k, d). (k, default_value d)) defs"

definition parseArgs :: "string list \<Rightarrow> outcome" where
  "parseArgs argv = parse_loop params_definition argv 0 (default_params params_definition)"

section \<open>Properties\<close>

subsection \<open>Throttle\<close>

lemma watch_event_cooldown:
  assumes "t < t0 + 100"
  shows "watch_event \<lparr>is_timed_out = True, is_timeout_active = True, timer = Some (t0 + 100), cb_calls = cs\<rparr> t
       = \<lparr>is_timed_out = True, is_timeout_active = True, timer = Some (t0 + 100), cb_calls = cs\<rparr>"
  using assms by (simp add: watch_event_def run_timers_def throttle_def)

lemma foldl_watch_event_cooldown:
  assumes "\<forall>t \<in> set ts. t < t0 + 100"
  shows "foldl watch_event \<lparr>is_timed_out = True, is_timeout_active = True, timer = Some (t0 + 100), cb_calls = cs\<rparr> ts
       = \<lparr>is_timed_out = True, is_timeout_active = True, timer = Some (t0 + 100), cb_calls = cs\<rparr>"
  using assms by (induction ts) (simp_all add: watch_event_cooldown)

lemma watch_event_idle:
  "watch_event \<lparr>is_timed_out = False, is_timeout_active = False, timer = None, cb_calls = cs\<rparr> t
     = \<lparr>is_timed_out = True, is_timeout_active = True, timer = Some (t + 100), cb_calls = cs @ [t]\<rparr>"
  by (simp add: watch_event_def run_timers_def throttle_def)

lemma watch_event_elapsed:
  assumes "t0 + 100 \<le> t"
  shows "watch_event \<lparr>is_timed_out = True, is_timeout_active = True, timer = Some (t0 + 100), cb_calls = cs\<rparr> t
     = \<lparr>is_timed_out = True, is_timeout_active = True, timer = Some (t + 100), cb_calls = cs @ [t]\<rparr>"
  using assms by (simp add: watch_event_def run_timers_def throttle_def timer_fired_def)

text \<open>
  C3. The throttled callback of \<^verbatim>\<open>watch\<close> fires on the leading edge of a window of
  100 ms: the first event calls the callback at once; the events that arrive before the
  window has elapsed call nothing; the first event after the window calls the callback
  again. So the callback runs exactly at the first event and at that later event.
\<close>

theorem throttle_leading_edge:
  assumes "\<forall>t \<in> set ts. t < t0 + 100" and "t0 + 100 \<le> t'"
  shows "cb_calls (watch [t0]) = [t0]
       \<and> cb_calls (watch (t0 # ts)) = [t0]
       \<and> cb_calls (watch (t0 # ts @ [t'])) = [t0, t']"
  using assms
  by (simp add: watch_def throttle_init_def watch_event_idle foldl_watch_event_cooldown watch_event_elapsed)

theorem throttle_leading_edge_witness:
  "list_all (\<lambda>t. t < 0 + 100) [2, 5, 7, 10::nat] \<and> (0::nat) + 100 \<le> 160
   \<and> cb_calls (watch [0, 2, 5, 7, 10]) = [0]
   \<and> cb_calls (watch [0, 2, 5, 7, 10, 160]) = [0, 160]"
  using throttle_leading_edge [of "[2, 5, 7, 10]" 0 160] by simp

subsection \<open>Server-sent events\<close>

lemma sse_connections_update_response [simp]:
  "sse_connections (update_response r f s) = sse_connections s"
  by (simp add: update_response_def)

lemma responses_update_response:
  "responses (update_response r f s) r' = (if r' = r then f (responses s r) else responses s r')"
  by (simp add: update_response_def)

lemma map_set_keys: "fst ` set (map_set k v m) = insert k (fst ` set m)"
  by (induction m) (force split: if_splits)+

lemma distinct_map_set: "distinct (map fst m) \<Longrightarrow> distinct (map fst (map_set k v m))"
proof (induction m)
  case Nil
  then show ?case by simp
next
  case (Cons e m)
  obtain k' v' where e: "e = (k', v')" by (cases e)
  show ?case
  proof (cases "k' = k")
    case True
    with Cons.prems e show ?thesis by simp
  next
    case False
    with Cons e show ?thesis by (auto simp: map_set_keys)
  qed
qed

lemma distinct_map_delete: "distinct (map fst m) \<Longrightarrow> distinct (map fst (map_delete k m))"
  by (simp add: map_delete_def distinct_map_filter)

lemma map_of_map_set: "map_of (map_set k v m) = (map_of m)(k \<mapsto> v)"
  by (induction m) auto

lemma set_map_set_subset: "set (map_set k v m) \<subseteq> insert (k, v) (set m)"
  by (induction m) (auto split: if_splits)

lemma map_set_other_value:
  "(k', v') \<in> set (map_set k v m) \<Longrightarrow> k' \<noteq> k \<Longrightarrow> (k', v') \<in> set m"
  by (induction m) (auto split: if_splits)

lemma map_set_same_key:
  "distinct (map fst m) \<Longrightarrow> (k, v') \<in> set (map_set k v m) \<Longrightarrow> v' = v"
proof (induction m)
  case Nil
  then show ?case by simp
next
  case (Cons e m)
  obtain k0 v0 where e: "e = (k0, v0)" by (cases e)
  show ?case
  proof (cases "k0 = k")
    case True
    with Cons.prems e show ?thesis by (force simp: image_iff)
  next
    case False
    with Cons e show ?thesis by auto
  qed
qed

lemma sendReload_connections [simp]:
  "sse_connections (foldl (\<lambda>st (client, res). update_response res f st) s conns) = sse_connections s"
  by (induction conns arbitrary: s) (auto simp: case_prod_beta)

lemma sendReload_responses:
  "responses (foldl (\<lambda>st (client, res). update_response res f st) s conns) r
     = (f ^^ count_list (map snd conns) r) (responses s r)"
proof (induction conns arbitrary: s)
  case Nil
  then show ?case by simp
next
  case (Cons e conns)
  obtain c r0 where e: "e = (c, r0)" by (cases e)
  show ?case
    by (simp add: e Cons.IH responses_update_response funpow_swap1)
qed

lemma count_list_0: "x \<notin> set xs \<Longrightarrow> count_list xs x = 0"
  by (induction xs) auto

lemma SSESendReload_unregistered:
  "r \<notin> registered s \<Longrightarrow> responses (SSESendReload s) r = responses s r"
  by (simp add: SSESendReload_def sendReload_responses registered_def count_list_0)


lemma count_map_set_fresh:
  "v \<notin> snd ` set m \<Longrightarrow> count_list (map snd (map_set k v m)) v = 1"
  by (induction m) (auto simp: count_list_0)

lemma count_map_set_other:
  "r \<noteq> v \<Longrightarrow> (k, r) \<notin> set m \<Longrightarrow>
   count_list (map snd (map_set k v m)) r = count_list (map snd m) r"
proof (induction m)
  case Nil
  then show ?case by simp
next
  case (Cons e m)
  obtain k' v' where e: "e = (k', v')" by (cases e)
  show ?case
  proof (cases "k' = k")
    case True
    with Cons.prems e show ?thesis by auto
  next
    case False
    with Cons e show ?thesis by auto
  qed
qed

lemma count_map_delete_other:
  "(k, r) \<notin> set m \<Longrightarrow>
   count_list (map snd (map_delete k m)) r = count_list (map snd m) r"
  by (induction m) (auto simp: map_delete_def)

lemma registered_map_set:
  "r \<in> snd ` set (map_set k v m) \<Longrightarrow> r = v \<or> r \<in> snd ` set m"
  using set_map_set_subset [of k v m] by auto

lemma written_res_writeHead [simp]: "written (res_writeHead c hs r) = written r"
  by (simp add: res_writeHead_def)

lemma ended_res_writeHead [simp]: "ended (res_writeHead c hs r) = ended r"
  by (simp add: res_writeHead_def)

lemma wae_res_writeHead [simp]: "write_after_end (res_writeHead c hs r) = write_after_end r"
  by (simp add: res_writeHead_def)

lemma SSESendReload_once:
  "count_list (map snd (sse_connections s)) r = 1 \<Longrightarrow>
   responses (SSESendReload s) r = res_write reload_msg (responses s r)"
  by (simp add: SSESendReload_def sendReload_responses)

text \<open>
  C8. The registry holds at most one entry for each remote address, and registering,
  closing and broadcasting keep it so. A second registration from the same address
  takes the place of the first: the earlier response is no longer registered and,
  though still open, gets nothing from a broadcast.
\<close>

theorem registry_one_entry_per_address:
  assumes inv: "distinct (map fst (sse_connections s))"
    and fresh: "r1 \<notin> registered s" and ne: "r1 \<noteq> r2"
    and "open": "\<not> ended (responses s r1)"
  shows "distinct (map fst (sse_connections (SSERegister a r s)))
       \<and> distinct (map fst (sse_connections (SSEClose a r s)))
       \<and> distinct (map fst (sse_connections (SSESendReload s)))
       \<and> map_of (sse_connections (SSERegister a r2 (SSERegister a r1 s))) (remoteAddress_of a)
           = Some r2
       \<and> r1 \<notin> registered (SSERegister a r2 (SSERegister a r1 s))
       \<and> \<not> ended (responses (SSESendReload (SSERegister a r2 (SSERegister a r1 s))) r1)
       \<and> written (responses (SSESendReload (SSERegister a r2 (SSERegister a r1 s))) r1)
           = written (responses s r1)"
proof -
  let ?A = "remoteAddress_of a"
  let ?m = "sse_connections s"
  let ?s2 = "SSERegister a r2 (SSERegister a r1 s)"
  have conns2: "sse_connections ?s2 = map_set ?A r2 (map_set ?A r1 ?m)"
    by (simp add: SSERegister_def Let_def)
  have d1: "distinct (map fst (map_set ?A r1 ?m))"
    using inv by (rule distinct_map_set)
  have unreg: "r1 \<notin> registered ?s2"
  proof
    assume "r1 \<in> registered ?s2"
    then obtain k where k: "(k, r1) \<in> set (map_set ?A r2 (map_set ?A r1 ?m))"
      by (auto simp: registered_def conns2)
    show False
    proof (cases "k = ?A")
      case True
      with k d1 have "r1 = r2" by (auto dest: map_set_same_key)
      with ne show False by simp
    next
      case False
      with k have "(k, r1) \<in> set (map_set ?A r1 ?m)" by (auto dest: map_set_other_value)
      with False have "(k, r1) \<in> set ?m" by (auto dest: map_set_other_value)
      with fresh show False by (force simp: registered_def)
    qed
  qed
  have resp2: "responses ?s2 r1 = res_writeHead 200
      [(''Content-Type'', ''text/event-stream''), (''Cache-Control'', ''no-cache''),
       (''Connection'', ''keep-alive''), (''Access-Control-Allow-Origin'', ''*'')] (responses s r1)"
    using ne by (simp add: SSERegister_def Let_def responses_update_response)
  have same: "responses (SSESendReload ?s2) r1 = responses ?s2 r1"
    using unreg by (rule SSESendReload_unregistered)
  have "distinct (map fst (sse_connections (SSERegister a r s)))"
    using inv by (simp add: SSERegister_def Let_def distinct_map_set)
  moreover have "distinct (map fst (sse_connections (SSEClose a r s)))"
    using inv by (simp add: SSEClose_def Let_def distinct_map_delete)
  moreover have "distinct (map fst (sse_connections (SSESendReload s)))"
    using inv by (simp add: SSESendReload_def)
  moreover have "map_of (sse_connections ?s2) ?A = Some r2"
    by (simp add: conns2 map_of_map_set)
  moreover have "\<not> ended (responses (SSESendReload ?s2) r1)"
    using "open" by (simp add: same resp2)
  moreover have "written (responses (SSESendReload ?s2) r1) = written (responses s r1)"
    by (simp add: same resp2)
  ultimately show ?thesis using unreg by blast
qed

theorem registry_one_entry_per_address_witness:
  "distinct (map fst (sse_connections run_init))
   \<and> (1::nat) \<notin> registered run_init \<and> (1::nat) \<noteq> 2
   \<and> \<not> ended (responses run_init 1)
   \<and> sse_connections (SSERegister (Some ''127.0.0.1'') 2 (SSERegister (Some ''127.0.0.1'') 1 run_init))
       = [(''127.0.0.1'', 2)]
   \<and> written (responses (SSESendReload (SSERegister (Some ''127.0.0.1'') 2
         (SSERegister (Some ''127.0.0.1'') 1 run_init))) 1) = []
   \<and> written (responses (SSESendReload (SSERegister (Some ''127.0.0.1'') 2
         (SSERegister (Some ''127.0.0.1'') 1 run_init))) 2) = [reload_msg]"
proof -
  have h1: "distinct (map fst (sse_connections run_init))"
    by (simp add: run_init_def)
  have h2: "(1::nat) \<notin> registered run_init"
    by (simp add: run_init_def registered_def)
  have h3: "(1::nat) \<noteq> 2" by simp
  have h4: "\<not> ended (responses run_init 1)"
    by (simp add: run_init_def new_response_def)
  have w: "written (responses run_init 1) = []"
    by (simp add: run_init_def new_response_def)
  have c: "sse_connections (SSERegister (Some ''127.0.0.1'') 2 (SSERegister (Some ''127.0.0.1'') 1 run_init))
       = [(''127.0.0.1'', 2)]"
    by (simp add: SSERegister_def run_init_def remoteAddress_of_def Let_def)
  have r2: "written (responses (SSESendReload (SSERegister (Some ''127.0.0.1'') 2
         (SSERegister (Some ''127.0.0.1'') 1 run_init))) 2) = [reload_msg]"
    by (simp add: SSESendReload_def SSERegister_def run_init_def remoteAddress_of_def Let_def
        update_response_def res_write_def res_writeHead_def new_response_def)
  from registry_one_entry_per_address [OF h1 h2 h3 h4, of "Some ''127.0.0.1''" 0]
  show ?thesis using h1 h2 h4 w c r2 by simp
qed

text \<open>
  C4 (amended). After two clients with different remote addresses have registered, a
  broadcast writes the reload message to both of them. If the first of them closes
  before the broadcast, the message goes to the other one only: the departed client
  gets its closing chunk and nothing more, and no write after its end happens.
\<close>

theorem broadcast_reaches_both_clients:
  assumes addr: "remoteAddress_of a1 \<noteq> remoteAddress_of a2"
    and ne: "r1 \<noteq> r2"
    and f1: "r1 \<notin> registered s" and f2: "r2 \<notin> registered s"
    and o1: "\<not> ended (responses s r1)" and o2: "\<not> ended (responses s r2)"
  shows "written (responses (SSESendReload (SSERegister a2 r2 (SSERegister a1 r1 s))) r1)
           = written (responses s r1) @ [reload_msg]
       \<and> written (responses (SSESendReload (SSERegister a2 r2 (SSERegister a1 r1 s))) r2)
           = written (responses s r2) @ [reload_msg]
       \<and> written (responses (SSESendReload (SSEClose a1 r1
             (SSERegister a2 r2 (SSERegister a1 r1 s)))) r2)
           = written (responses s r2) @ [reload_msg]
       \<and> written (responses (SSESendReload (SSEClose a1 r1
             (SSERegister a2 r2 (SSERegister a1 r1 s)))) r1)
           = written (responses s r1) @ [''closed'']
       \<and> write_after_end (responses (SSESendReload (SSEClose a1 r1
             (SSERegister a2 r2 (SSERegister a1 r1 s)))) r1)
           = write_after_end (responses s r1)"
proof -
  let ?A1 = "remoteAddress_of a1" and ?A2 = "remoteAddress_of a2"
  let ?m = "sse_connections s"
  let ?m1 = "map_set ?A1 r1 ?m"
  let ?m2 = "map_set ?A2 r2 ?m1"
  let ?m3 = "map_delete ?A1 ?m2"
  let ?s2 = "SSERegister a2 r2 (SSERegister a1 r1 s)"
  let ?s3 = "SSEClose a1 r1 ?s2"
  let ?hs = "[(''Content-Type'', ''text/event-stream''), (''Cache-Control'', ''no-cache''),
       (''Connection'', ''keep-alive''), (''Access-Control-Allow-Origin'', ''*'')]"
  have conns2: "sse_connections ?s2 = ?m2"
    by (simp add: SSERegister_def Let_def)
  have conns3: "sse_connections ?s3 = ?m3"
    by (simp add: SSEClose_def SSERegister_def Let_def)
  have resp2_1: "responses ?s2 r1 = res_writeHead 200 ?hs (responses s r1)"
    using ne by (simp add: SSERegister_def Let_def responses_update_response)
  have resp2_2: "responses ?s2 r2 = res_writeHead 200 ?hs (responses s r2)"
    using ne by (simp add: SSERegister_def Let_def responses_update_response)
  have resp3_1: "responses ?s3 r1 = res_end ''closed'' (responses ?s2 r1)"
    by (simp add: SSEClose_def Let_def responses_update_response)
  have resp3_2: "responses ?s3 r2 = responses ?s2 r2"
    using ne by (simp add: SSEClose_def Let_def responses_update_response)
  have m_r1: "\<And>k. (k, r1) \<notin> set ?m" and m_r2: "\<And>k. (k, r2) \<notin> set ?m"
    using f1 f2 by (force simp: registered_def)+
  have m1_r2: "r2 \<notin> snd ` set ?m1"
    using registered_map_set [of r2 ?A1 r1 ?m] ne f2 by (auto simp: registered_def)
  have m1_A2_r1: "(?A2, r1) \<notin> set ?m1"
    using map_set_other_value [of ?A2 r1 ?A1 r1 ?m] addr m_r1 by auto
  have c1_m1: "count_list (map snd ?m1) r1 = 1"
    using f1 by (simp add: count_map_set_fresh registered_def)
  have c1: "count_list (map snd ?m2) r1 = 1"
    using ne m1_A2_r1 c1_m1 by (simp add: count_map_set_other)
  have c2: "count_list (map snd ?m2) r2 = 1"
    using m1_r2 by (rule count_map_set_fresh)
  have m2_A1_r2: "(?A1, r2) \<notin> set ?m2"
  proof
    assume "(?A1, r2) \<in> set ?m2"
    with addr have "(?A1, r2) \<in> set ?m1" by (auto dest: map_set_other_value)
    with m1_r2 show False by force
  qed
  have c3: "count_list (map snd ?m3) r2 = 1"
    using m2_A1_r2 c2 by (simp add: count_map_delete_other)
  have gone: "r1 \<notin> registered ?s3"
  proof
    assume "r1 \<in> registered ?s3"
    then obtain k where k: "(k, r1) \<in> set ?m2" and kA: "k \<noteq> ?A1"
      by (auto simp: registered_def conns3 map_delete_def)
    from k ne have "(k, r1) \<in> set ?m1"
      using set_map_set_subset [of ?A2 r2 ?m1] by auto
    with kA have "(k, r1) \<in> set ?m" by (auto dest: map_set_other_value)
    with m_r1 show False by simp
  qed
  have b1: "responses (SSESendReload ?s2) r1 = res_write reload_msg (responses ?s2 r1)"
    using c1 by (simp add: SSESendReload_once conns2)
  have b2: "responses (SSESendReload ?s2) r2 = res_write reload_msg (responses ?s2 r2)"
    using c2 by (simp add: SSESendReload_once conns2)
  have b3: "responses (SSESendReload ?s3) r2 = res_write reload_msg (responses ?s3 r2)"
    using c3 by (simp add: SSESendReload_once conns3)
  have b4: "responses (SSESendReload ?s3) r1 = responses ?s3 r1"
    using gone by (rule SSESendReload_unregistered)
  have "written (responses (SSESendReload ?s2) r1) = written (responses s r1) @ [reload_msg]"
    using o1 by (simp add: b1 resp2_1 res_write_def)
  moreover have "written (responses (SSESendReload ?s2) r2) = written (responses s r2) @ [reload_msg]"
    using o2 by (simp add: b2 resp2_2 res_write_def)
  moreover have "written (responses (SSESendReload ?s3) r2) = written (responses s r2) @ [reload_msg]"
    using o2 by (simp add: b3 resp3_2 resp2_2 res_write_def)
  moreover have "written (responses (SSESendReload ?s3) r1) = written (responses s r1) @ [''closed'']"
    using o1 by (simp add: b4 resp3_1 resp2_1 res_end_def)
  moreover have "write_after_end (responses (SSESendReload ?s3) r1) = write_after_end (responses s r1)"
    using o1 by (simp add: b4 resp3_1 resp2_1 res_end_def)
  ultimately show ?thesis by blast
qed


theorem broadcast_reaches_both_clients_witness:
  "remoteAddress_of (Some ''10.0.0.1'') \<noteq> remoteAddress_of (Some ''10.0.0.2'')
   \<and> (1::nat) \<noteq> 2 \<and> 1 \<notin> registered run_init \<and> 2 \<notin> registered run_init
   \<and> \<not> ended (responses run_init 1) \<and> \<not> ended (responses run_init 2)
   \<and> written (responses (SSESendReload (SSERegister (Some ''10.0.0.2'') 2
         (SSERegister (Some ''10.0.0.1'') 1 run_init))) 1) = [reload_msg]
   \<and> written (responses (SSESendReload (SSERegister (Some ''10.0.0.2'') 2
         (SSERegister (Some ''10.0.0.1'') 1 run_init))) 2) = [reload_msg]
   \<and> written (responses (SSESendReload (SSEClose (Some ''10.0.0.1'') 1
         (SSERegister (Some ''10.0.0.2'') 2 (SSERegister (Some ''10.0.0.1'') 1 run_init)))) 2)
       = [reload_msg]
   \<and> written (responses (SSESendReload (SSEClose (Some ''10.0.0.1'') 1
         (SSERegister (Some ''10.0.0.2'') 2 (SSERegister (Some ''10.0.0.1'') 1 run_init)))) 1)
       = [''closed'']
   \<and> \<not> write_after_end (responses (SSESendReload (SSEClose (Some ''10.0.0.1'') 1
         (SSERegister (Some ''10.0.0.2'') 2 (SSERegister (Some ''10.0.0.1'') 1 run_init)))) 1)"
proof -
  have h1: "remoteAddress_of (Some ''10.0.0.1'') \<noteq> remoteAddress_of (Some ''10.0.0.2'')"
    by (simp add: remoteAddress_of_def)
  have h2: "(1::nat) \<noteq> 2" by simp
  have h3: "(1::nat) \<notin> registered run_init" and h4: "(2::nat) \<notin> registered run_init"
    by (simp_all add: run_init_def registered_def)
  have h5: "\<not> ended (responses run_init 1)" and h6: "\<not> ended (responses run_init 2)"
    by (simp_all add: run_init_def new_response_def)
  have w: "written (responses run_init 1) = []" "written (responses run_init 2) = []"
    "\<not> write_after_end (responses run_init 1)"
    by (simp_all add: run_init_def new_response_def)
  from broadcast_reaches_both_clients [OF h1 h2 h3 h4 h5 h6]
  show ?thesis using h1 h3 h4 h5 h6 w by simp
qed

text \<open>
  C4 as stated fails for two clients that share a remote address, such as two tabs of
  one browser: the second registration replaces the first, so the first client gets
  no reload message; and when the first client closes, its listener removes the entry
  of the second, which then gets nothing although it is still open.
\<close>

theorem broadcast_same_address_counterexample:
  "written (responses (SSESendReload (SSERegister (Some ''127.0.0.1'') 2
       (SSERegister (Some ''127.0.0.1'') 1 run_init))) 1) = []
   \<and> written (responses (SSESendReload (SSEClose (Some ''127.0.0.1'') 1
       (SSERegister (Some ''127.0.0.1'') 2 (SSERegister (Some ''127.0.0.1'') 1 run_init)))) 2) = []
   \<and> \<not> ended (responses (SSESendReload (SSEClose (Some ''127.0.0.1'') 1
       (SSERegister (Some ''127.0.0.1'') 2 (SSERegister (Some ''127.0.0.1'') 1 run_init)))) 2)"
  by (simp add: SSESendReload_def SSERegister_def SSEClose_def run_init_def remoteAddress_of_def
      Let_def map_delete_def update_response_def res_write_def res_end_def res_writeHead_def
      new_response_def)

subsection \<open>API stub\<close>

lemma startsWith_iff: "startsWith s p \<longleftrightarrow> (\<exists>r. s = p @ r)"
  by (induction s p rule: startsWith.induct) auto

text \<open>
  C2 (amended). A request whose path begins with \<^verbatim>\<open>/api\<close> and is not of the form
  \<^verbatim>\<open>/api/<digits>/<rest>\<close> is answered with the not-found reply
  \<^verbatim>\<open>Invalid API endpoint\<close>.
\<close>

theorem api_invalid_not_found:
  assumes "startsWith pathname ''/api''"
    and "\<not> (\<exists>version rest. pathname = ''/api/'' @ version @ ''/'' @ rest
              \<and> version \<noteq> [] \<and> list_all is_digit version
              \<and> \<not> list_ex is_line_terminator rest)"
  shows "route_api_reply pathname = Some (NotFound ''Invalid API endpoint'')"
proof -
  have r: "route pathname = ToAPI"
    using assms(1) by (auto simp: route_def)
  have "handleAPI pathname = NotFound ''Invalid API endpoint''"
  proof (cases "APIPathRegex_exec pathname")
    case None
    then show ?thesis by (simp add: handleAPI_def notFound_def)
  next
    case (Some vp)
    obtain v p where vp: "vp = (v, p)" by (cases vp)
    have "\<not> startsWith p ''/''"
    proof
      assume "startsWith p ''/''"
      then obtain rest where p: "p = ''/'' @ rest" by (auto simp: startsWith_iff)
      from Some vp obtain t where t: "pathname = ''/api/'' @ t"
        and v: "v = takeWhile is_digit t" and p': "p = dropWhile is_digit t"
        and ok: "v \<noteq> []" "\<not> list_ex is_line_terminator p"
        by (auto simp: APIPathRegex_exec_def Let_def startsWith_iff split: if_splits)
      have "t = v @ p" by (simp add: v p')
      moreover have "list_all is_digit v"
        by (simp add: v list_all_iff) (meson set_takeWhileD)
      moreover have "\<not> list_ex is_line_terminator rest"
        using ok(2) p by (simp add: list_ex_iff)
      ultimately show False using assms(2) t p ok(1) by auto
    qed
    with Some vp show ?thesis by (simp add: handleAPI_def notFound_def)
  qed
  with r show ?thesis by (simp add: route_api_reply_def)
qed

theorem api_invalid_not_found_witness:
  "startsWith ''/api/v1/users'' ''/api''
   \<and> route_api_reply ''/api/v1/users'' = Some (NotFound ''Invalid API endpoint'')"
proof -
  have h1: "startsWith ''/api/v1/users'' ''/api''" by simp
  have h2: "\<not> (\<exists>version rest. ''/api/v1/users'' = ''/api/'' @ version @ ''/'' @ rest
              \<and> version \<noteq> [] \<and> list_all is_digit version
              \<and> \<not> list_ex is_line_terminator rest)"
    by (auto simp: Cons_eq_append_conv is_digit_def)
  from api_invalid_not_found [OF h1 h2] h1 show ?thesis by simp
qed

text \<open>
  C2 as stated fails for a path with a version number: the handler of
  \<^verbatim>\<open>/api/1/users\<close> returns without writing any reply.
\<close>

theorem api_valid_path_counterexample:
  "startsWith ''/api/1/users'' ''/api'' \<and> route_api_reply ''/api/1/users'' = Some NoReply"
  by code_simp

subsection \<open>Path resolution\<close>

lemma split_on_not_Nil: "split_on c s \<noteq> []"
  by (induction s) (auto split: list.splits)

lemma split_on_append_sep: "split_on c (a @ c # b) = split_on c a @ split_on c b"
  by (induction a) (auto split: list.splits simp: split_on_not_Nil)

lemma split_on_no_sep: "c \<notin> set s \<Longrightarrow> split_on c s = [s]"
  by (induction s) auto

lemma split_on_elems: "e \<in> set (split_on c s) \<Longrightarrow> c \<notin> set e"
  by (induction s arbitrary: e) (auto split: if_splits list.splits)

lemma split_join_slash:
  "segs \<noteq> [] \<Longrightarrow> \<forall>s \<in> set segs. CHR ''/'' \<notin> set s \<Longrightarrow>
   split_on CHR ''/'' (join_slash segs) = segs"
  by (induction segs rule: join_slash.induct)
     (auto simp: split_on_no_sep split_on_append_sep)

lemma join_slash_Nil_iff:
  "\<forall>s \<in> set segs. s \<noteq> [] \<Longrightarrow> join_slash segs = [] \<longleftrightarrow> segs = []"
  by (induction segs rule: join_slash.induct) auto

lemma hd_join_slash:
  "segs \<noteq> [] \<Longrightarrow> \<forall>s \<in> set segs. s \<noteq> [] \<and> CHR ''/'' \<notin> set s \<Longrightarrow>
   hd (join_slash segs) \<noteq> CHR ''/''"
  by (induction segs rule: join_slash.induct) (auto simp: hd_append dest: hd_in_set)

lemma normalize_step_kept:
  assumes "list_all (kept_segment b) res" and "CHR ''/'' \<notin> set seg"
  shows "list_all (kept_segment b) (normalize_step b res seg)"
proof -
  have bl: "list_all (kept_segment b) (butlast res)"
    using assms(1) by (auto simp: list_all_iff dest: in_set_butlastD)
  have up: "kept_segment True ''..''"
    by (simp add: kept_segment_def)
  show ?thesis
  proof (cases "seg = [] \<or> seg = ''.''")
    case True
    with assms(1) show ?thesis by (auto simp: normalize_step_def)
  next
    case plain: False
    show ?thesis
    proof (cases "seg = ''..''")
      case True
      with plain assms(1) bl up show ?thesis
        by (cases b) (simp_all add: normalize_step_def)
    next
      case False
      with plain assms(2) have "kept_segment b seg"
        by (simp add: kept_segment_def)
      with plain False assms(1) show ?thesis
        by (simp add: normalize_step_def)
    qed
  qed
qed

lemma foldl_normalize_step_kept:
  "list_all (kept_segment b) res \<Longrightarrow> list_all (\<lambda>e. CHR ''/'' \<notin> set e) xs \<Longrightarrow>
   list_all (kept_segment b) (foldl (normalize_step b) res xs)"
  by (induction xs arbitrary: res) (simp_all add: normalize_step_kept)

lemma split_on_elems_all: "list_all (\<lambda>e. c \<notin> set e) (split_on c s)"
  by (simp add: list_all_iff split_on_elems)

lemma normalize_segments_kept: "list_all (kept_segment b) (normalize_segments b p)"
  unfolding normalize_segments_def
  by (rule foldl_normalize_step_kept) (simp_all add: split_on_elems_all)

lemma normalize_segments_kept_iff:
  "s \<in> set (normalize_segments b p) \<Longrightarrow> kept_segment b s"
  using normalize_segments_kept [of b p] by (simp add: list_all_iff)

lemma foldl_normalize_step_plain:
  "''..'' \<notin> set xs \<Longrightarrow>
   foldl (normalize_step b) acc xs = acc @ filter (\<lambda>e. e \<noteq> [] \<and> e \<noteq> ''.'') xs"
  by (induction xs arbitrary: acc) (auto simp: normalize_step_def)

text \<open>
  The shape of a normalised path: its kept segments, with at most an empty segment or
  a single dot in front and an empty segment behind.
\<close>

lemma split_path_normalize:
  "\<exists>pre post. split_on CHR ''/'' (path_normalize p)
       = pre @ normalize_segments (\<not> isAbsolute p) p @ post
     \<and> set pre \<subseteq> {[], ''.''} \<and> set post \<subseteq> {[]}"
proof (cases "p = []")
  case True
  have "split_on CHR ''/'' (path_normalize p) = [''.''] @ normalize_segments (\<not> isAbsolute p) p @ []"
    using True by (simp add: path_normalize_def normalize_segments_def normalize_step_def)
  then show ?thesis by (intro exI [of _ "[''.'']"] exI [of _ "[]"]) simp
next
  case False
  let ?segs = "normalize_segments (\<not> isAbsolute p) p"
  let ?q = "join_slash ?segs"
  have kept: "\<forall>s \<in> set ?segs. s \<noteq> [] \<and> CHR ''/'' \<notin> set s"
    by (auto dest: normalize_segments_kept_iff simp: kept_segment_def)
  show ?thesis
  proof (cases "?q = []")
    case True
    then have segs: "?segs = []" using kept by (simp add: join_slash_Nil_iff)
    have "path_normalize p = ''/'' \<or> path_normalize p = ''./'' \<or> path_normalize p = ''.''"
      using False True by (auto simp: path_normalize_def Let_def normalizeString_def)
    then consider "split_on CHR ''/'' (path_normalize p) = [[]] @ ?segs @ [[]]"
      | "split_on CHR ''/'' (path_normalize p) = [''.''] @ ?segs @ [[]]"
      | "split_on CHR ''/'' (path_normalize p) = [''.''] @ ?segs @ []"
      using segs by auto
    then show ?thesis
    proof cases
      case 1
      then show ?thesis by (intro exI [of _ "[[]]"] exI [of _ "[[]]"]) simp
    next
      case 2
      then show ?thesis by (intro exI [of _ "[''.'']"] exI [of _ "[[]]"]) simp
    next
      case 3
      then show ?thesis by (intro exI [of _ "[''.'']"] exI [of _ "[]"]) simp
    qed
  next
    case qne: False
    then have segs: "?segs \<noteq> []" by auto
    have sq: "split_on CHR ''/'' ?q = ?segs"
      using segs kept by (simp add: split_join_slash)
    have sq': "split_on CHR ''/'' (?q @ ''/'') = ?segs @ [[]]"
      using split_on_append_sep [of "CHR ''/''" ?q "[]"] sq by simp
    consider (a) "path_normalize p = CHR ''/'' # ?q @ ''/''"
      | (b) "path_normalize p = CHR ''/'' # ?q"
      | (c) "path_normalize p = ?q @ ''/''"
      | (d) "path_normalize p = ?q"
      using False qne
      by (cases "isAbsolute p"; cases "last p = CHR ''/''")
         (simp_all add: path_normalize_def Let_def normalizeString_def)
    then show ?thesis
    proof cases
      case a
      then have "split_on CHR ''/'' (path_normalize p) = [[]] @ ?segs @ [[]]"
        using sq' by simp
      then show ?thesis by (intro exI [of _ "[[]]"] exI [of _ "[[]]"]) simp
    next
      case b
      then have "split_on CHR ''/'' (path_normalize p) = [[]] @ ?segs @ []"
        using sq by simp
      then show ?thesis by (intro exI [of _ "[[]]"] exI [of _ "[]"]) simp
    next
      case c
      then have "split_on CHR ''/'' (path_normalize p) = [] @ ?segs @ [[]]"
        using sq' by simp
      then show ?thesis by (intro exI [of _ "[]"] exI [of _ "[[]]"]) simp
    next
      case d
      then have "split_on CHR ''/'' (path_normalize p) = [] @ ?segs @ []"
        using sq by simp
      then show ?thesis by (intro exI [of _ "[]"] exI [of _ "[]"]) simp
    qed
  qed
qed

lemma path_segments_normalize:
  "path_segments (path_normalize p) = normalize_segments (\<not> isAbsolute p) p"
proof -
  obtain pre post where s: "split_on CHR ''/'' (path_normalize p)
       = pre @ normalize_segments (\<not> isAbsolute p) p @ post"
    and pre: "set pre \<subseteq> {[], ''.''}" and post: "set post \<subseteq> {[]}"
    using split_path_normalize by blast
  have 1: "filter (\<lambda>s. s \<noteq> [] \<and> s \<noteq> ''.'') pre = []"
    using pre by (auto simp: filter_empty_conv)
  have 2: "filter (\<lambda>s. s \<noteq> [] \<and> s \<noteq> ''.'') post = []"
    using post by (auto simp: filter_empty_conv)
  have 3: "filter (\<lambda>s. s \<noteq> [] \<and> s \<noteq> ''.'') (normalize_segments (\<not> isAbsolute p) p)
             = normalize_segments (\<not> isAbsolute p) p"
    by (auto simp: filter_id_conv kept_segment_def dest: normalize_segments_kept_iff)
  show ?thesis by (simp add: path_segments_def s 1 2 3)
qed

lemma isAbsolute_path_normalize: "isAbsolute (path_normalize p) = isAbsolute p"
proof (cases "p = []")
  case True
  then show ?thesis by (simp add: path_normalize_def isAbsolute_def)
next
  case False
  let ?segs = "normalize_segments (\<not> isAbsolute p) p"
  have kept: "\<forall>s \<in> set ?segs. s \<noteq> [] \<and> CHR ''/'' \<notin> set s"
    by (auto dest: normalize_segments_kept_iff simp: kept_segment_def)
  show ?thesis
  proof (cases "isAbsolute p")
    case True
    with False show ?thesis
      by (auto simp: path_normalize_def Let_def isAbsolute_def)
  next
    case rel: False
    show ?thesis
    proof (cases "join_slash ?segs = []")
      case True
      with False rel show ?thesis
        by (auto simp: path_normalize_def Let_def isAbsolute_def normalizeString_def)
    next
      case qne: False
      then have "?segs \<noteq> []" by auto
      then have "hd (join_slash ?segs) \<noteq> CHR ''/''"
        using kept by (intro hd_join_slash) auto
      with False rel qne show ?thesis
        by (auto simp: path_normalize_def Let_def isAbsolute_def normalizeString_def hd_append)
    qed
  qed
qed

lemma no_parent_in_absolute:
  assumes "isAbsolute p"
  shows "''..'' \<notin> set (split_on CHR ''/'' (path_normalize p))"
proof -
  obtain pre post where s: "split_on CHR ''/'' (path_normalize p)
       = pre @ normalize_segments (\<not> isAbsolute p) p @ post"
    and pre: "set pre \<subseteq> {[], ''.''}" and post: "set post \<subseteq> {[]}"
    using split_path_normalize by blast
  have "''..'' \<notin> set (normalize_segments (\<not> isAbsolute p) p)"
    using assms by (auto dest: normalize_segments_kept_iff simp: kept_segment_def)
  with pre post show ?thesis by (auto simp: s)
qed

lemma strip_parent_prefix_absolute:
  "isAbsolute p \<Longrightarrow> strip_parent_prefix p = p"
  by (cases p rule: strip_parent_prefix.cases) (auto simp: isAbsolute_def)

lemma path_join_within_root:
  assumes root: "root \<noteq> []" and abs: "isAbsolute pathname"
  shows "within_root root (path_join root (sanitisePath pathname))"
proof -
  let ?fp = "path_normalize pathname"
  let ?P = "root @ CHR ''/'' # ?fp"
  let ?b = "\<not> isAbsolute root"
  have fp_abs: "isAbsolute ?fp" using abs by (simp add: isAbsolute_path_normalize)
  then have fp_ne: "?fp \<noteq> []" by (auto simp: isAbsolute_def)
  have san: "sanitisePath pathname = ?fp"
    using fp_abs by (simp add: sanitisePath_def strip_parent_prefix_absolute)
  have joined: "path_join root (sanitisePath pathname) = path_normalize ?P"
    using root fp_ne by (simp add: path_join_def san)
  have absP: "isAbsolute ?P = isAbsolute root"
    using root by (cases root) (auto simp: isAbsolute_def)
  have nodd: "''..'' \<notin> set (split_on CHR ''/'' ?fp)"
    using abs by (rule no_parent_in_absolute)
  have segs: "path_segments (path_normalize ?P)
      = path_segments (path_normalize root) @ path_segments ?fp"
  proof -
    have "path_segments (path_normalize ?P) = normalize_segments ?b ?P"
      by (simp add: path_segments_normalize absP)
    also have "\<dots> = foldl (normalize_step ?b) (normalize_segments ?b root)
                      (split_on CHR ''/'' ?fp)"
      by (simp add: normalize_segments_def split_on_append_sep)
    also have "\<dots> = normalize_segments ?b root @ path_segments ?fp"
      using nodd by (simp add: foldl_normalize_step_plain path_segments_def)
    finally show ?thesis by (simp add: path_segments_normalize)
  qed
  have "''..'' \<notin> set (path_segments ?fp)"
    using nodd by (auto simp: path_segments_def)
  then show ?thesis
    by (simp add: within_root_def Let_def joined segs isAbsolute_path_normalize absP)
qed

text \<open>
  C1. With a serving root that is not the empty string, every request that \<^verbatim>\<open>route\<close>
  hands to the static handler gets a file path, and every file path that a request
  gets lies within the serving root, however many \<^verbatim>\<open>..\<close> segments the pathname has:
  \<^verbatim>\<open>/../../etc/passwd\<close> against \<^verbatim>\<open>/srv/site\<close> gives \<^verbatim>\<open>/srv/site/etc/passwd\<close>.
\<close>

theorem resolved_path_within_root:
  assumes "dirpath \<noteq> []"
  shows "(route pathname = ToStatic \<longrightarrow> (\<exists>filepath. route_filepath dirpath pathname = Some filepath))
       \<and> (\<forall>filepath. route_filepath dirpath pathname = Some filepath
             \<longrightarrow> within_root dirpath filepath)"
proof (cases "route pathname = ToStatic")
  case True
  then have st: "startsWith pathname ''/''"
    by (auto simp: route_def split: if_splits)
  then have abs: "isAbsolute pathname"
    by (cases pathname) (auto simp: isAbsolute_def)
  then have "isAbsolute (path_normalize pathname)"
    by (simp add: isAbsolute_path_normalize)
  then have "sanitisePath pathname \<noteq> []"
    by (auto simp: sanitisePath_def strip_parent_prefix_absolute isAbsolute_def)
  then have "route_filepath dirpath pathname = Some (path_join dirpath (sanitisePath pathname))"
    using True by (simp add: route_filepath_def handleStatic_filepath_def getFilepath_def)
  with assms abs show ?thesis by (simp add: path_join_within_root)
next
  case False
  then have "route_filepath dirpath pathname = None"
    by (cases "route pathname") (simp_all add: route_filepath_def)
  with False show ?thesis by simp
qed

theorem resolved_path_within_root_witness:
  "''/srv/site'' \<noteq> []
   \<and> route ''/../../etc/passwd'' = ToStatic
   \<and> route_filepath ''/srv/site'' ''/../../etc/passwd'' = Some ''/srv/site/etc/passwd''
   \<and> within_root ''/srv/site'' ''/srv/site/etc/passwd''"
proof -
  have h1: "''/srv/site'' \<noteq> []" by simp
  have h2: "route_filepath ''/srv/site'' ''/../../etc/passwd'' = Some ''/srv/site/etc/passwd''"
    by code_simp
  have h3: "route ''/../../etc/passwd'' = ToStatic"
    by code_simp
  from resolved_path_within_root [OF h1, of "''/../../etc/passwd''"] h1 h2 h3
  show ?thesis by simp
qed

text \<open>
  The property rests on the guard of \<^verbatim>\<open>route\<close>. A relative pathname that normalises
  to a bare \<^verbatim>\<open>..\<close> would pass \<^verbatim>\<open>sanitisePath\<close> unchanged, because the pattern
  wants a separator after the dots; \<^verbatim>\<open>route\<close> never hands over such a pathname.
\<close>

lemma sanitisePath_bare_parent:
  "sanitisePath ''..'' = ''..'' \<and> route_filepath ''/srv/site'' ''..'' = None"
  by code_simp

subsection \<open>Command-line parser\<close>

text \<open>
  C5 (amended). Parsing \<^verbatim>\<open>-p 3000 www -watch\<close> returns the parameters with port
  3000, dirpath \<^verbatim>\<open>www\<close>, watch true, and verbose left at its default value, which is
  \<^verbatim>\<open>undefined\<close>.
\<close>

theorem parseArgs_example:
  "parseArgs [''-p'', ''3000'', ''www'', ''-watch'']
     = Returned [(''port'', VNum (IntNum 3000)), (''verbose'', VUndefined),
                 (''watch'', VBool True), (''dirpath'', VStr ''www'')]"
  by code_simp

text \<open>
  C5 as stated fails: the parameters returned are not those with verbose
  \<^verbatim>\<open>false\<close>.
\<close>

theorem parseArgs_example_counterexample:
  "parseArgs [''-p'', ''3000'', ''www'', ''-watch'']
     \<noteq> Returned [(''port'', VNum (IntNum 3000)), (''verbose'', VBool False),
                 (''watch'', VBool True), (''dirpath'', VStr ''www'')]"
  by code_simp

text \<open>
  C6. Parsing \<^verbatim>\<open>-p notanumber\<close> ends the process with exit code 1, but the
  validator of \<^verbatim>\<open>port\<close> never sees the value: \<^verbatim>\<open>Number("notanumber")\<close> is
  \<^verbatim>\<open>NaN\<close>, which is falsy, so \<^verbatim>\<open>if (value)\<close> skips the validation and the
  message is the one for an unknown argument. It does not mention \<^verbatim>\<open>port\<close>.
\<close>

theorem parseArgs_port_notanumber:
  "parseArgs [''-p'', ''notanumber'']
     = Exit 1 [ErrorLine (''Unknown argument: '' @ quoted ''notanumber''), HelpMessage]"
  by code_simp

text \<open>
  A value that is a number but no integer does reach the validator, and the message
  names the parameter.
\<close>

lemma parseArgs_port_fraction:
  "parseArgs [''-p'', ''1.5'']
     = Exit 1 [ErrorLine (''Invalid value for argument '' @ quoted ''port'' @ '': '' @ quoted ''1.5''),
               HelpMessage]"
  by code_simp


text \<open>The inner loop on the parameters of the server, in closed form.\<close>

lemma match_defs_params:
  "match_defs params_definition arg tok rest 0 pos VNull res =
     (if startsWith arg ''-'' then
        (if drop 1 arg \<in> {''port'', ''p''} then
           (let v = VNum (js_Number (at_index rest 0))
            in if truthy v then
                 (if \<not> Number_isInteger v then
                    Exited 1 [ErrorLine (''Invalid value for argument '' @ quoted ''port'' @ '': ''
                                @ quoted (js_String (at_index rest 0))), HelpMessage]
                  else Finished 1 pos v (map_set ''port'' v res))
               else Finished 1 pos v res)
         else if drop 1 arg \<in> {''verbose'', ''v''} then
           Finished 0 pos (VBool True) (map_set ''verbose'' (VBool True) res)
         else if drop 1 arg \<in> {''watch'', ''w''} then
           Finished 0 pos (VBool True) (map_set ''watch'' (VBool True) res)
         else Finished 0 pos VNull res)
      else if pos = 0 then
        (if arg \<noteq> [] then Finished 0 1 (VStr arg) (map_set ''dirpath'' (VStr arg) res)
         else Finished 0 1 (VStr arg) res)
      else Finished 0 pos VNull res)"
  by (auto simp: params_definition_def Let_def parseArgValue_def printHelp_def argv_i_def)


lemma at_index_append:
  "at_index xs i \<noteq> None \<Longrightarrow> at_index (xs @ ys) i = at_index xs i"
  by (auto simp: at_index_def nth_append split: if_splits)

lemma truthy_Number_defined:
  "truthy (VNum (js_Number a)) \<Longrightarrow> a \<noteq> None"
  by (cases a) (auto simp: js_Number_def)

text \<open>
  A token that was accepted has read no token beyond the end of the list, so the tokens
  that follow do not change what it does.
\<close>

lemma match_defs_params_extend:
  assumes "match_defs params_definition arg tok rest 0 pos VNull res = Finished k pos' v res'"
    and "truthy v"
  shows "k \<le> length rest
       \<and> match_defs params_definition arg tok (rest @ extra) 0 pos VNull res
           = Finished k pos' v res'"
proof (cases "startsWith arg ''-'' \<and> drop 1 arg \<in> {''port'', ''p''}")
  case True
  with assms have v: "v = VNum (js_Number (at_index rest 0))" and k: "k = 1"
    by (auto simp: match_defs_params Let_def split: if_splits)
  from v assms(2) have def: "at_index rest 0 \<noteq> None"
    by (auto dest: truthy_Number_defined)
  then have ext: "at_index (rest @ extra) 0 = at_index rest 0"
    by (rule at_index_append)
  from def have "1 \<le> length rest"
    by (cases rest) (auto simp: at_index_def)
  with assms True k ext show ?thesis
    by (auto simp: match_defs_params Let_def split: if_splits)
next
  case False
  with assms show ?thesis
    by (auto simp: match_defs_params split: if_splits)
qed

lemma parse_loop_help_after:
  assumes "parse_loop params_definition pre pos res = Returned cfg"
    and "help_test (toLowerCase tok)"
  shows "parse_loop params_definition (pre @ tok # post) pos res = Exit 0 [HelpMessage]"
  using assms
proof (induction pre arbitrary: pos res rule: length_induct)
  case (1 pre)
  show ?case
  proof (cases pre)
    case Nil
    with "1.prems" show ?thesis by (simp add: printHelp_def)
  next
    case (Cons t rest)
    from "1.prems"(1) Cons have nh: "\<not> help_test (toLowerCase t)"
      by (auto simp: Let_def printHelp_def split: if_splits)
    from "1.prems"(1) Cons nh obtain k pos' v res' where
      m: "match_defs params_definition (toLowerCase t) t rest 0 pos VNull res = Finished k pos' v res'"
      and tr: "truthy v"
      and r: "parse_loop params_definition (drop k rest) pos' res' = Returned cfg"
      by (auto simp: Let_def printHelp_def split: if_splits inner_result.splits prod.splits)
    from match_defs_params_extend [OF m tr, where extra = "tok # post"]
    have kl: "k \<le> length rest"
      and m': "match_defs params_definition (toLowerCase t) t (rest @ tok # post) 0 pos VNull res
                 = Finished k pos' v res'"
      by simp_all
    have "length (drop k rest) < length pre" using Cons by simp
    with "1.IH" r "1.prems"(2)
    have "parse_loop params_definition (drop k rest @ tok # post) pos' res' = Exit 0 [HelpMessage]"
      by blast
    with kl m' tr nh Cons show ?thesis by (simp add: Let_def)
  qed
qed

text \<open>
  C7 (amended). When the tokens before \<^verbatim>\<open>-help\<close> are accepted (parsing them alone
  returns), parsing prints the help message and ends the process with exit code 0
  at \<^verbatim>\<open>-help\<close>, whatever follows it.
\<close>

theorem help_after_accepted_arguments:
  assumes "parseArgs pre = Returned cfg"
  shows "parseArgs (pre @ ''-help'' # post) = Exit 0 [HelpMessage]"
proof -
  have "help_test (toLowerCase ''-help'')" by code_simp
  with assms show ?thesis
    unfolding parseArgs_def by (rule parse_loop_help_after)
qed

theorem help_after_accepted_arguments_witness:
  "parseArgs [''-p'', ''3000'', ''www'']
     = Returned [(''port'', VNum (IntNum 3000)), (''verbose'', VUndefined),
                 (''watch'', VUndefined), (''dirpath'', VStr ''www'')]
   \<and> parseArgs ([''-p'', ''3000'', ''www''] @ ''-help'' # [''-x'', ''-p'']) = Exit 0 [HelpMessage]"
proof -
  have h: "parseArgs [''-p'', ''3000'', ''www'']
     = Returned [(''port'', VNum (IntNum 3000)), (''verbose'', VUndefined),
                 (''watch'', VUndefined), (''dirpath'', VStr ''www'')]"
    by code_simp
  from help_after_accepted_arguments [OF h] h show ?thesis by simp
qed

text \<open>
  C7 as stated fails when an earlier token is rejected: the scan goes from left to
  right and ends the process with exit code 1 before it reaches \<^verbatim>\<open>-help\<close>.
\<close>

theorem help_not_first_counterexample:
  "parseArgs [''-x'', ''-help'']
     = Exit 1 [ErrorLine (''Unknown argument: '' @ quoted ''-x''), HelpMessage]"
  by code_simp

text \<open>
  C9 (amended). A token whose lowercased form has a match of the help pattern anywhere,
  and which the scan reaches (the tokens before it are accepted when parsed alone),
  prints the help message and ends the process with exit code 0.
\<close>

theorem help_pattern_unanchored:
  assumes "help_test (toLowerCase tok)"
    and "parseArgs pre = Returned cfg"
  shows "parseArgs (pre @ tok # post) = Exit 0 [HelpMessage]"
  using assms(2,1) unfolding parseArgs_def by (rule parse_loop_help_after)

theorem help_pattern_unanchored_witness:
  "help_test (toLowerCase ''my-house'')
   \<and> parseArgs [''-w''] = Returned [(''port'', VNum (IntNum 8080)), (''verbose'', VUndefined),
                 (''watch'', VBool True), (''dirpath'', VStr ''.'')]
   \<and> parseArgs ([''-w''] @ ''my-house'' # []) = Exit 0 [HelpMessage]"
proof -
  have h1: "help_test (toLowerCase ''my-house'')" by code_simp
  have h2: "parseArgs [''-w''] = Returned [(''port'', VNum (IntNum 8080)), (''verbose'', VUndefined),
                 (''watch'', VBool True), (''dirpath'', VStr ''.'')]"
    by code_simp
  from help_pattern_unanchored [OF h1 h2] h1 h2 show ?thesis by simp
qed

text \<open>
  C9 as stated fails for a token that is read as the value of \<^verbatim>\<open>-p\<close>: it is never
  tested against the help pattern, and the process ends with exit code 1.
\<close>

theorem help_pattern_value_token_counterexample:
  "help_test (toLowerCase ''my-house'')
   \<and> parseArgs [''-p'', ''my-house'']
       = Exit 1 [ErrorLine (''Unknown argument: '' @ quoted ''my-house''), HelpMessage]"
  by code_simp

lemma lower_char_dash: "lower_char c = CHR ''-'' \<longleftrightarrow> c = CHR ''-''"
  by (auto simp: lower_char_def split: option.splits if_splits)

lemma startsWith_toLowerCase_dash:
  "startsWith (toLowerCase tok) ''-'' \<longleftrightarrow> startsWith tok ''-''"
  by (cases tok) (auto simp: toLowerCase_def lower_char_dash)

lemma parse_loop_keeps_dirpath:
  assumes "parse_loop params_definition args pos res = Returned cfg" and "0 < pos"
  shows "map_of cfg ''dirpath'' = map_of res ''dirpath''"
  using assms
proof (induction args arbitrary: pos res rule: length_induct)
  case (1 args)
  show ?case
  proof (cases args)
    case Nil
    with "1.prems" show ?thesis by simp
  next
    case (Cons t rest)
    from "1.prems"(1) Cons have nh: "\<not> help_test (toLowerCase t)"
      by (auto simp: Let_def printHelp_def split: if_splits)
    from "1.prems"(1) Cons nh obtain k pos' v res' where
      m: "match_defs params_definition (toLowerCase t) t rest 0 pos VNull res = Finished k pos' v res'"
      and tr: "truthy v"
      and r: "parse_loop params_definition (drop k rest) pos' res' = Returned cfg"
      by (auto simp: Let_def printHelp_def split: if_splits inner_result.splits prod.splits)
    from m tr "1.prems"(2) have pos': "0 < pos'"
      and res': "map_of res' ''dirpath'' = map_of res ''dirpath''"
      by (auto simp: match_defs_params Let_def map_of_map_set split: if_splits)
    have "length (drop k rest) < length args" using Cons by simp
    with "1.IH" r pos' have "map_of cfg ''dirpath'' = map_of res' ''dirpath''"
      by blast
    with res' show ?thesis by simp
  qed
qed

text \<open>
  C10. A positional token (not empty, not starting with \<^verbatim>\<open>-\<close>, no match of the help
  pattern) that the scan meets at position 0 is stored lowercased as \<^verbatim>\<open>dirpath\<close>, and
  the parameters that are returned in the end hold that value: \<^verbatim>\<open>WWW\<close> gives the
  dirpath \<^verbatim>\<open>www\<close>.
\<close>

theorem positional_value_lowercased:
  assumes "tok \<noteq> []" and "\<not> startsWith tok ''-''" and "\<not> help_test (toLowerCase tok)"
  shows "parse_loop params_definition (tok # rest) 0 res
           = parse_loop params_definition rest 1
               (map_set ''dirpath'' (VStr (toLowerCase tok)) res)
       \<and> (parse_loop params_definition (tok # rest) 0 res = Returned cfg
            \<longrightarrow> map_of cfg ''dirpath'' = Some (VStr (toLowerCase tok)))
       \<and> parseArgs [tok]
           = Returned (map_set ''dirpath'' (VStr (toLowerCase tok))
                         (default_params params_definition))"
proof -
  have ne: "toLowerCase tok \<noteq> []" using assms(1) by (simp add: toLowerCase_def)
  have nd: "\<not> startsWith (toLowerCase tok) ''-''"
    using assms(2) by (simp add: startsWith_toLowerCase_dash)
  have step: "\<And>rest res. parse_loop params_definition (tok # rest) 0 res
           = parse_loop params_definition rest 1
               (map_set ''dirpath'' (VStr (toLowerCase tok)) res)"
    using ne nd assms(3) by (simp add: Let_def match_defs_params)
  have "parse_loop params_definition (tok # rest) 0 res = Returned cfg
            \<longrightarrow> map_of cfg ''dirpath'' = Some (VStr (toLowerCase tok))"
  proof
    assume "parse_loop params_definition (tok # rest) 0 res = Returned cfg"
    then have "parse_loop params_definition rest 1
               (map_set ''dirpath'' (VStr (toLowerCase tok)) res) = Returned cfg"
      by (simp only: step)
    then have "map_of cfg ''dirpath''
        = map_of (map_set ''dirpath'' (VStr (toLowerCase tok)) res) ''dirpath''"
      by (rule parse_loop_keeps_dirpath) simp
    then show "map_of cfg ''dirpath'' = Some (VStr (toLowerCase tok))"
      by (simp add: map_of_map_set)
  qed
  moreover have "parseArgs [tok]
           = Returned (map_set ''dirpath'' (VStr (toLowerCase tok))
                         (default_params params_definition))"
    unfolding parseArgs_def by (subst step) simp
  ultimately show ?thesis using step by blast
qed

theorem positional_value_lowercased_witness:
  "''WWW'' \<noteq> [] \<and> \<not> startsWith ''WWW'' ''-'' \<and> \<not> help_test (toLowerCase ''WWW'')
   \<and> parseArgs [''WWW'']
       = Returned [(''port'', VNum (IntNum 8080)), (''verbose'', VUndefined),
                   (''watch'', VUndefined), (''dirpath'', VStr ''www'')]"
proof -
  have h1: "''WWW'' \<noteq> []" by simp
  have h2: "\<not> startsWith ''WWW'' ''-''" by simp
  have h3: "\<not> help_test (toLowerCase ''WWW'')" by code_simp
  have e: "map_set ''dirpath'' (VStr (toLowerCase ''WWW'')) (default_params params_definition)
       = [(''port'', VNum (IntNum 8080)), (''verbose'', VUndefined),
                   (''watch'', VUndefined), (''dirpath'', VStr ''www'')]"
    by code_simp
  from positional_value_lowercased [OF h1 h2 h3] h1 h2 h3 e show ?thesis by simp
qed

text \<open>The serving root that the command line gives is never the empty string.\<close>

lemma parse_loop_dirpath_nonempty:
  assumes "parse_loop params_definition args pos res = Returned cfg"
    and "\<exists>d. map_of res ''dirpath'' = Some (VStr d) \<and> d \<noteq> []"
  shows "\<exists>d. map_of cfg ''dirpath'' = Some (VStr d) \<and> d \<noteq> []"
  using assms
proof (induction args arbitrary: pos res rule: length_induct)
  case (1 args)
  show ?case
  proof (cases args)
    case Nil
    with "1.prems" show ?thesis by simp
  next
    case (Cons t rest)
    from "1.prems"(1) Cons have nh: "\<not> help_test (toLowerCase t)"
      by (auto simp: Let_def printHelp_def split: if_splits)
    from "1.prems"(1) Cons nh obtain k pos' v res' where
      m: "match_defs params_definition (toLowerCase t) t rest 0 pos VNull res = Finished k pos' v res'"
      and tr: "truthy v"
      and r: "parse_loop params_definition (drop k rest) pos' res' = Returned cfg"
      by (auto simp: Let_def printHelp_def split: if_splits inner_result.splits prod.splits)
    from m tr "1.prems"(2)
    have res': "\<exists>d. map_of res' ''dirpath'' = Some (VStr d) \<and> d \<noteq> []"
      by (auto simp: match_defs_params Let_def map_of_map_set split: if_splits)
    have "length (drop k rest) < length args" using Cons by simp
    with "1.IH" r res' show ?thesis by blast
  qed
qed

lemma parseArgs_dirpath_nonempty:
  assumes "parseArgs argv = Returned cfg"
  shows "\<exists>d. map_of cfg ''dirpath'' = Some (VStr d) \<and> d \<noteq> []"
proof -
  have "\<exists>d. map_of (default_params params_definition) ''dirpath'' = Some (VStr d) \<and> d \<noteq> []"
    by (simp add: default_params_def params_definition_def)
  with assms show ?thesis
    unfolding parseArgs_def by (rule parse_loop_dirpath_nonempty)
qed

end
